theory Spec2Isabelle
  imports Main
begin

section \<open>Python string primitives used by script.py\<close>

text \<open>
  Python strings are sequences of code points. The embedding uses \<^typ>\<open>string\<close>, whose
  characters are the code points below 256. On that range \<open>str.strip()\<close> and the regular
  expression class \<open>\s\<close> remove the same characters (those for which \<open>str.isspace\<close> holds),
  \<open>\d\<close> is the ten ASCII digits, and case-insensitive matching of an ASCII letter accepts
  exactly its two ASCII cases.
\<close>

definition py_isspace :: "char \<Rightarrow> bool" where
  "py_isspace c = ((of_char c :: nat) \<in> set [9, 10, 11, 12, 13, 28, 29, 30, 31, 32, 133, 160])"

definition py_isdigit :: "char \<Rightarrow> bool" where
  "py_isdigit c = (48 \<le> (of_char c :: nat) \<and> (of_char c :: nat) \<le> 57)"

definition py_lower :: "char \<Rightarrow> char" where
  "py_lower c = (if 65 \<le> (of_char c :: nat) \<and> (of_char c :: nat) \<le> 90
                 then char_of ((of_char c :: nat) + 32) else c)"

text \<open>\<open>s.strip()\<close>: leading and trailing whitespace removed.\<close>

definition strip :: "string \<Rightarrow> string" where
  "strip s = rev (dropWhile py_isspace (rev (dropWhile py_isspace s)))"

text \<open>
  \<open>text.split(". ")\<close>: the pieces between the non-overlapping occurrences of the
  two-character separator, found from the left; there is always at least one piece.
\<close>

fun split_dot :: "string \<Rightarrow> string list" where
  "split_dot [] = [[]]"
| "split_dot [c] = [[c]]"
| "split_dot (c # d # cs) =
     (if c = CHR ''.'' \<and> d = CHR '' '' then [] # split_dot cs
      else (case split_dot (d # cs) of
              p # ps \<Rightarrow> (c # p) # ps
            | [] \<Rightarrow> [[c]]))"

text \<open>\<open>text.split('\n')\<close>.\<close>

fun split_lines :: "string \<Rightarrow> string list" where
  "split_lines [] = [[]]"
| "split_lines (c # cs) =
     (if c = CHR 0x0A then [] # split_lines cs
      else (case split_lines cs of
              p # ps \<Rightarrow> (c # p) # ps
            | [] \<Rightarrow> [[c]]))"

section \<open>Chunker: \<open>break_down_page_into_parts\<close>\<close>

text \<open>
  The \<open>for\<close> loop of lines 113--118, with \<open>parts\<close> and \<open>current_part\<close> as the loop state.
  \<open>part_size\<close> is a Python \<open>int\<close>, so it is an \<^typ>\<open>int\<close> here.
\<close>

fun chunk_loop :: "int \<Rightarrow> string list \<Rightarrow> string \<Rightarrow> string list \<Rightarrow> string list \<times> string" where
  "chunk_loop part_size parts current_part [] = (parts, current_part)"
| "chunk_loop part_size parts current_part (sentence # rest) =
     (if int (length current_part) + int (length sentence) + 1 \<le> part_size
      then chunk_loop part_size parts (current_part @ sentence @ ''. '') rest
      else chunk_loop part_size (parts @ [strip current_part]) (sentence @ ''. '') rest)"

definition break_down_page_into_parts :: "string \<Rightarrow> int \<Rightarrow> string list" where
  "break_down_page_into_parts text part_size =
     (case chunk_loop part_size [] [] (split_dot text) of
        (parts, current_part) \<Rightarrow>
          if current_part \<noteq> [] then parts @ [strip current_part] else parts)"

section \<open>Response parser\<close>

subsection \<open>Turn extraction: \<open>extract_assistant_responses\<close>\<close>

definition starts_with :: "string \<Rightarrow> string \<Rightarrow> bool" where
  "starts_with m xs = (take (length m) xs = m)"

text \<open>
  The lookahead \<open>(?=<\|system\|>|<\|user\|>|$)\<close> at the suffix \<open>xs\<close> of the text. Without
  \<open>re.MULTILINE\<close>, \<open>$\<close> holds at the end of the string and just before a newline that is the
  last character of the string.
\<close>

definition at_terminator :: "string \<Rightarrow> bool" where
  "at_terminator xs =
     (starts_with ''<|system|>'' xs \<or> starts_with ''<|user|>'' xs \<or> xs = [] \<or> xs = [CHR 0x0A])"

text \<open>
  The lazy group \<open>(.*?)\<close> under \<open>re.DOTALL\<close>: the number of characters up to the first
  position at which the lookahead succeeds.
\<close>

fun span_len :: "string \<Rightarrow> nat" where
  "span_len [] = 0"
| "span_len (c # cs) = (if at_terminator (c # cs) then 0 else Suc (span_len cs))"

text \<open>
  \<open>re.findall\<close>: the groups of the non-overlapping matches, leftmost first; the search
  resumes where the previous match ended (the lookahead consumes nothing). The marker
  \<open><|assistant|>\<close> has 13 characters.
\<close>

fun findall_assistant :: "string \<Rightarrow> string list" where
  "findall_assistant [] = []"
| "findall_assistant (c # cs) =
     (if starts_with ''<|assistant|>'' (c # cs)
      then take (span_len (drop 12 cs)) (drop 12 cs)
             # findall_assistant (drop (span_len (drop 12 cs)) (drop 12 cs))
      else findall_assistant cs)"

definition cleaned_responses :: "string \<Rightarrow> string list" where
  "cleaned_responses text = map strip (filter (\<lambda>response. strip response \<noteq> []) (findall_assistant text))"

definition extract_assistant_responses :: "string \<Rightarrow> string option" where
  "extract_assistant_responses text =
     (case cleaned_responses text of
        [] \<Rightarrow> None
      | response # _ \<Rightarrow> Some response)"

subsection \<open>Q&A parsing: \<open>extract_questions_and_answers\<close>\<close>

record qa =
  question :: string
  answer :: string

definition drop_colon :: "string \<Rightarrow> string" where
  "drop_colon xs = (case xs of [] \<Rightarrow> [] | c # cs \<Rightarrow> if c = CHR '':'' then cs else xs)"

text \<open>
  \<open>re.match(r'^(?:Question(?:\s*\d*)?:?\s*)(.*?)$', line, re.IGNORECASE)\<close> and its twin for
  \<open>Answer\<close>, on a line without a newline (the lines come from \<open>split('\n')\<close>): \<open>word\<close> is
  the marker in lower case. After the marker the greedy quantifiers take all whitespace,
  all digits, one colon if there is one, and all whitespace; \<open>(.*?)$\<close> then accepts whatever
  is left, so the first greedy attempt succeeds and group 1 is the rest of the line.
\<close>

definition match_marker :: "string \<Rightarrow> string \<Rightarrow> string option" where
  "match_marker word line =
     (if map py_lower (take (length word) line) = word
      then Some (dropWhile py_isspace (drop_colon (dropWhile py_isdigit
                   (dropWhile py_isspace (drop (length word) line)))))
      else None)"

text \<open>Python truthiness of a value that is \<open>None\<close> or a string.\<close>

fun truthy :: "string option \<Rightarrow> bool" where
  "truthy None = False"
| "truthy (Some s) = (s \<noteq> [])"

text \<open>
  The state of the loop of lines 148--170: \<open>current_question\<close>, \<open>current_answer\<close> and the
  pairs appended so far. \<open>emit\<close> is the guarded \<open>append\<close> of lines 155--159 and 172--176.
\<close>

type_synonym qa_state = "string option \<times> string option \<times> qa list"

definition emit :: "string option \<Rightarrow> string option \<Rightarrow> qa list \<Rightarrow> qa list" where
  "emit current_question current_answer pairs =
     (case (current_question, current_answer) of
        (Some q, Some a) \<Rightarrow>
          if truthy (Some q) \<and> truthy (Some a)
          then pairs @ [\<lparr>question = strip q, answer = strip a\<rparr>]
          else pairs
      | _ \<Rightarrow> pairs)"

fun qa_step :: "qa_state \<Rightarrow> string \<Rightarrow> qa_state" where
  "qa_step (current_question, current_answer, pairs) raw =
     (let line = strip raw in
      if line = [] then (current_question, current_answer, pairs)
      else (case match_marker ''question'' line of
              Some q \<Rightarrow> (Some q, None, emit current_question current_answer pairs)
            | None \<Rightarrow>
               (case match_marker ''answer'' line of
                  Some a \<Rightarrow> (current_question, Some a, pairs)
                | None \<Rightarrow>
                   (case current_answer of
                      Some a \<Rightarrow> (current_question, Some (a @ '' '' @ line), pairs)
                    | None \<Rightarrow>
                        if truthy current_question then (current_question, Some line, pairs)
                        else (current_question, current_answer, pairs)))))"

definition qa_loop :: "qa_state \<Rightarrow> string list \<Rightarrow> qa_state" where
  "qa_loop st lines = foldl qa_step st lines"

fun qa_finish :: "qa_state \<Rightarrow> qa list" where
  "qa_finish (current_question, current_answer, pairs) = emit current_question current_answer pairs"

definition extract_questions_and_answers :: "string \<Rightarrow> qa list" where
  "extract_questions_and_answers text =
     (if text = [] then []
      else qa_finish (qa_loop (None, None, []) (split_lines text)))"

section \<open>Ledger\<close>

text \<open>
  The dictionaries of \<open>qa_data.json\<close> as records. A pair of the parser becomes a ledger
  record when lines 237--238 add \<open>page_number\<close> and \<open>part_number\<close> to it.
\<close>

record qa_record = qa +
  page_number :: int
  part_number :: int

record metadata =
  last_processed_page :: int
  total_pages_processed :: int
  total_questions :: int
  last_update :: string
  last_anki_card_index :: int

record qa_data =
  metadata :: metadata
  qa_pairs :: "qa_record list"

text \<open>
  The exceptions of the program. \<open>json.load\<close> can raise exceptions that are not
  \<open>JSONDecodeError\<close>: \<open>UnicodeDecodeError\<close> on bytes that are not UTF-8, \<open>ValueError\<close> on an
  integer literal beyond the digit limit, \<open>RecursionError\<close> on deep nesting.
  \<open>LedgerShapeError\<close> is the \<open>KeyError\<close> or \<open>TypeError\<close> of the first subscript of line 72
  on a loaded value that is not a ledger.
\<close>

datatype load_error = UnicodeDecodeError | ValueError | RecursionError

datatype error = ModelError | DocumentError | LoadError load_error | LedgerShapeError

text \<open>
  A file by what \<open>json.load\<close> does on it: it returns a ledger, it returns another JSON
  value, it raises \<open>JSONDecodeError\<close>, or it raises another exception. \<open>json.dump\<close> writes
  a text that \<open>json.load\<close> reads back as the value dumped; the JSON text itself is not
  modelled.
\<close>

datatype file_content = Json qa_data | JsonOther | Malformed | Unreadable load_error

text \<open>The value that \<open>load_or_create_qa_file\<close> returns: a ledger, or another JSON value.\<close>

datatype loaded = Ledger qa_data | NotLedger

text \<open>
  The world outside the process: the JSON files by path, the deck package
  \<open>OUTPUT.apkg\<close>, the number of readings of the clock so far, and the page numbers
  announced by line 213.
\<close>

type_synonym card = "string list"

type_synonym deck = "card list"

record world =
  files :: "string \<rightharpoonup> file_content"
  package :: "deck option"
  ticks :: nat
  announced :: "int list"

definition initial_data :: qa_data where
  "initial_data =
     \<lparr>metadata = \<lparr>last_processed_page = 9, total_pages_processed = 0, total_questions = 0,
                   last_update = [], last_anki_card_index = - 1\<rparr>,
      qa_pairs = []\<rparr>"

text \<open>
  \<open>load_or_create_qa_file\<close>: \<open>Inl\<close> is an exception that leaves the function. Only
  \<open>JSONDecodeError\<close> is caught (line 44); then, and when there is no file, the fresh ledger
  is written and returned. Whatever \<open>json.load\<close> returns is returned unchecked.
\<close>

definition load_or_create_qa_file :: "string \<Rightarrow> world \<Rightarrow> error + loaded \<times> world" where
  "load_or_create_qa_file filename w =
     (case files w filename of
        Some (Json data) \<Rightarrow> Inr (Ledger data, w)
      | Some JsonOther \<Rightarrow> Inr (NotLedger, w)
      | Some (Unreadable e) \<Rightarrow> Inl (LoadError e)
      | Some Malformed \<Rightarrow>
          Inr (Ledger initial_data, w\<lparr>files := (files w)(filename \<mapsto> Json initial_data)\<rparr>)
      | None \<Rightarrow>
          Inr (Ledger initial_data, w\<lparr>files := (files w)(filename \<mapsto> Json initial_data)\<rparr>))"

text \<open>
  \<open>save_qa_data\<close>: \<open>now\<close> is the clock (\<open>datetime.now().isoformat()\<close> at its n-th reading).
  The stamped ledger is written to \<open>filename + '.tmp'\<close>, and \<open>os.replace\<close> moves that file
  onto \<open>filename\<close>. The caller's dictionary is mutated, so the stamped ledger is returned.
\<close>

definition save_qa_data :: "(nat \<Rightarrow> string) \<Rightarrow> qa_data \<Rightarrow> string \<Rightarrow> world \<Rightarrow> qa_data \<times> world" where
  "save_qa_data now data filename w =
     (let data' = data\<lparr>metadata := (metadata data)\<lparr>last_update := now (ticks w)\<rparr>\<rparr>;
          temp_filename = filename @ ''.tmp'';
          written = (files w)(temp_filename \<mapsto> Json data');
          replaced = (written(filename := written temp_filename))(temp_filename := None)
      in (data', w\<lparr>files := replaced, ticks := Suc (ticks w)\<rparr>))"

section \<open>Deck synchronizer\<close>

text \<open>\<open>str\<close> of an integer.\<close>

fun str_nat :: "nat \<Rightarrow> string" where
  "str_nat n = (if n < 10 then [char_of (48 + n)] else str_nat (n div 10) @ [char_of (48 + n mod 10)])"

definition str_int :: "int \<Rightarrow> string" where
  "str_int i = (if i < 0 then CHR ''-'' # str_nat (nat (- i)) else str_nat (nat i))"

text \<open>The slice \<open>xs[k:]\<close>: a negative \<open>k\<close> counts from the end, and both ends are clamped.\<close>

definition py_slice_from :: "int \<Rightarrow> 'a list \<Rightarrow> 'a list" where
  "py_slice_from k xs = (if k < 0 then drop (nat (int (length xs) + k)) xs else drop (nat k) xs)"

text \<open>\<open>enumerate(xs, start)\<close>.\<close>

fun enumerate_from :: "int \<Rightarrow> 'a list \<Rightarrow> (int \<times> 'a) list" where
  "enumerate_from i [] = []"
| "enumerate_from i (x # xs) = (i, x) # enumerate_from (i + 1) xs"

definition make_note :: "qa_record \<Rightarrow> card" where
  "make_note qa_pair = [question qa_pair, answer qa_pair, str_int (page_number qa_pair)]"

text \<open>
  The body of the loop of lines 75--86, on the state \<open>(new_cards_added, deck, qa_data)\<close>.
  The slice and the start index are computed once, before the loop.
\<close>

fun add_card :: "int \<times> qa_record \<Rightarrow> int \<times> deck \<times> qa_data \<Rightarrow> int \<times> deck \<times> qa_data" where
  "add_card (i, qa_pair) (new_cards_added, deck, data) =
     (new_cards_added + 1, deck @ [make_note qa_pair],
      data\<lparr>metadata := (metadata data)\<lparr>last_anki_card_index := i\<rparr>\<rparr>)"

definition add_new_cards_to_deck :: "deck \<Rightarrow> qa_data \<Rightarrow> int \<times> deck \<times> qa_data" where
  "add_new_cards_to_deck deck data =
     (let last_processed_index = last_anki_card_index (metadata data)
      in fold add_card
           (enumerate_from (last_processed_index + 1)
              (py_slice_from (last_processed_index + 1) (qa_pairs data)))
           (0, deck, data))"

definition save_deck :: "deck \<Rightarrow> world \<Rightarrow> world" where
  "save_deck deck w = w\<lparr>package := Some deck\<rparr>"

section \<open>Orchestrator: \<open>main\<close>\<close>

text \<open>
  The collaborators are parameters. \<open>generate_questions\<close> (the text model) returns a
  transcript or raises; the document source opens or raises, and each page's
  \<open>extract_text()\<close> returns a text, returns \<open>None\<close> or raises. The path literal of line 205
  is a placeholder in the source and plays no role here.
\<close>

type_synonym page = "error + string option"

text \<open>Lines 236--239: each pair is stamped and appended, in order.\<close>

definition stamp :: "int \<Rightarrow> int \<Rightarrow> qa \<Rightarrow> qa_record" where
  "stamp page_num i qa_pair =
     \<lparr>question = question qa_pair, answer = answer qa_pair,
      page_number = page_num, part_number = i + 1\<rparr>"

definition append_pairs :: "int \<Rightarrow> int \<Rightarrow> qa list \<Rightarrow> qa_data \<Rightarrow> qa_data" where
  "append_pairs page_num i pairs data =
     foldl (\<lambda>d qa_pair. d\<lparr>qa_pairs := qa_pairs d @ [stamp page_num i qa_pair]\<rparr>) data pairs"

text \<open>Lines 245--246.\<close>

definition update_metadata :: "int \<Rightarrow> qa_data \<Rightarrow> qa_data" where
  "update_metadata page_num data =
     data\<lparr>metadata := (metadata data)\<lparr>last_processed_page := page_num,
                                        total_questions := int (length (qa_pairs data))\<rparr>\<rparr>"

text \<open>Line 268 and line 272.\<close>

definition count_page :: "qa_data \<Rightarrow> qa_data" where
  "count_page data =
     data\<lparr>metadata := (metadata data)\<lparr>total_pages_processed := total_pages_processed (metadata data) + 1\<rparr>\<rparr>"

definition set_last_page :: "int \<Rightarrow> qa_data \<Rightarrow> qa_data" where
  "set_last_page page_num data =
     data\<lparr>metadata := (metadata data)\<lparr>last_processed_page := page_num\<rparr>\<rparr>"

text \<open>
  Lines 196--199 and 249--252: synchronize the deck, and write the package when cards
  were added.
\<close>

definition sync_deck :: "deck \<Rightarrow> qa_data \<Rightarrow> world \<Rightarrow> deck \<times> qa_data \<times> world" where
  "sync_deck deck data w =
     (case add_new_cards_to_deck deck data of
        (new_cards, deck', data') \<Rightarrow>
          (deck', data', if new_cards > 0 then save_deck deck' w else w))"

text \<open>
  The loop over the parts of one page (lines 225--265), on the state
  \<open>(qa_data, deck, world, page_has_valid_qa)\<close>. An exception of the model call is caught
  and the part is skipped.
\<close>

type_synonym part_state = "qa_data \<times> deck \<times> world \<times> bool"

fun process_parts ::
  "(nat \<Rightarrow> string) \<Rightarrow> (string \<Rightarrow> error + string) \<Rightarrow> int \<Rightarrow> (int \<times> string) list \<Rightarrow> part_state \<Rightarrow> part_state" where
  "process_parts now generate_questions page_num [] st = st"
| "process_parts now generate_questions page_num ((i, part) # rest) (data, deck, w, page_has_valid_qa) =
     (case generate_questions part of
        Inl e \<Rightarrow> process_parts now generate_questions page_num rest (data, deck, w, page_has_valid_qa)
      | Inr result \<Rightarrow>
         (case extract_assistant_responses result of
            None \<Rightarrow> process_parts now generate_questions page_num rest (data, deck, w, page_has_valid_qa)
          | Some response \<Rightarrow>
             if response = []
             then process_parts now generate_questions page_num rest (data, deck, w, page_has_valid_qa)
             else
              (case extract_questions_and_answers response of
                 [] \<Rightarrow> process_parts now generate_questions page_num rest (data, deck, w, page_has_valid_qa)
               | qa_pair # others \<Rightarrow>
                  (case sync_deck deck
                          (update_metadata page_num (append_pairs page_num i (qa_pair # others) data)) w of
                     (deck1, data1, w1) \<Rightarrow>
                       (case save_qa_data now data1 ''qa_data.json'' w1 of
                          (data2, w2) \<Rightarrow>
                            process_parts now generate_questions page_num rest (data2, deck1, w2, True))))))"

text \<open>
  The loop over the pages (lines 212--273). An exception of \<open>extract_text\<close> leaves the loop
  with the state reached so far.
\<close>

type_synonym run_state = "qa_data \<times> deck \<times> world"

fun process_pages ::
  "(nat \<Rightarrow> string) \<Rightarrow> (string \<Rightarrow> error + string) \<Rightarrow> (int \<times> page) list \<Rightarrow> run_state \<Rightarrow> error \<times> run_state + run_state" where
  "process_pages now generate_questions [] st = Inr st"
| "process_pages now generate_questions ((page_num, page) # rest) (data, deck, w) =
     (let w0 = w\<lparr>announced := announced w @ [page_num]\<rparr> in
      case page of
        Inl e \<Rightarrow> Inl (e, (data, deck, w0))
      | Inr None \<Rightarrow> process_pages now generate_questions rest (data, deck, w0)
      | Inr (Some text) \<Rightarrow>
          if text = [] then process_pages now generate_questions rest (data, deck, w0)
          else
           (case process_parts now generate_questions page_num
                   (enumerate_from 0 (break_down_page_into_parts text 500)) (data, deck, w0, False) of
              (data1, deck1, w1, page_has_valid_qa) \<Rightarrow>
                (case (if page_has_valid_qa then save_qa_data now (count_page data1) ''qa_data.json'' w1
                       else (data1, w1)) of
                   (data2, w2) \<Rightarrow>
                     (case save_qa_data now (set_last_page page_num data2) ''qa_data.json'' w2 of
                        (data3, w3) \<Rightarrow> process_pages now generate_questions rest (data3, deck1, w3)))))"

text \<open>
  \<open>main\<close>: \<open>Inl\<close> is an exception raised before the \<open>try\<close> of line 204 (by line 192, or by
  line 196 on a loaded value that is not a ledger); nothing is saved then. \<open>Inr\<close> gives the
  exception re-raised by line 278, if any, and the final ledger, deck and world.
\<close>

definition main ::
  "(nat \<Rightarrow> string) \<Rightarrow> (string \<Rightarrow> error + string) \<Rightarrow> error + page list \<Rightarrow> world \<Rightarrow>
   error + error option \<times> run_state" where
  "main now generate_questions pdf w =
     (case load_or_create_qa_file ''qa_data.json'' w of
        Inl e \<Rightarrow> Inl e
      | Inr (NotLedger, w0) \<Rightarrow> Inl LedgerShapeError
      | Inr (Ledger data0, w0) \<Rightarrow>
         (case sync_deck [] data0 w0 of
            (deck, data, w1) \<Rightarrow>
              (let start_page = last_processed_page (metadata data) + 1 in
               case pdf of
                 Inl e \<Rightarrow>
                   (case save_qa_data now data ''qa_data.json'' w1 of
                      (data', w') \<Rightarrow> Inr (Some e, (data', deck, w')))
               | Inr pages \<Rightarrow>
                   if start_page \<ge> int (length pages) then Inr (None, (data, deck, w1))
                   else
                    (case process_pages now generate_questions
                            (enumerate_from start_page (py_slice_from start_page pages)) (data, deck, w1) of
                       Inl (e, (data', deck', w')) \<Rightarrow>
                         (case save_qa_data now data' ''qa_data.json'' w' of
                            (data'', w'') \<Rightarrow> Inr (Some e, (data'', deck', w'')))
                     | Inr st \<Rightarrow> Inr (None, st)))))"

section \<open>Predicates used in the statements\<close>

text \<open>
  A part emitted by the chunker, relative to the sentences \<open>S\<close> of the text: it is empty,
  or within the limit, or one sentence of \<open>S\<close> with its delimiter put back, where the
  sentence has at least \<open>lim\<close> characters.
\<close>

definition part_ok :: "int \<Rightarrow> string set \<Rightarrow> string \<Rightarrow> bool" where
  "part_ok lim S p =
     (p = [] \<or> int (length p) \<le> lim \<or> (\<exists>s\<in>S. p = strip (s @ ''. '') \<and> lim \<le> int (length s)))"

text \<open>The invariant of the running buffer \<open>current_part\<close>.\<close>

definition buffer_ok :: "int \<Rightarrow> string set \<Rightarrow> string \<Rightarrow> bool" where
  "buffer_ok lim S cur =
     (cur = [] \<or>
      (\<exists>u. cur = u @ ''. '' \<and> (int (length u) + 1 \<le> lim \<or> (u \<in> S \<and> lim \<le> int (length u)))))"

text \<open>
  A string has text when some character of it is not whitespace; such a string survives
  \<open>strip\<close>. A pending question or answer of the Q&A parser is \<open>None\<close>, empty, or has text.
\<close>

definition has_text :: "string \<Rightarrow> bool" where
  "has_text s = (\<exists>c\<in>set s. \<not> py_isspace c)"

definition pending_ok :: "string option \<Rightarrow> bool" where
  "pending_ok v = (case v of None \<Rightarrow> True | Some s \<Rightarrow> s = [] \<or> has_text s)"

definition pairs_ok :: "qa list \<Rightarrow> bool" where
  "pairs_ok pairs = (\<forall>p\<in>set pairs. question p \<noteq> [] \<and> answer p \<noteq> [])"

fun state_ok :: "qa_state \<Rightarrow> bool" where
  "state_ok (cq, ca, pairs) = (pending_ok cq \<and> pending_ok ca \<and> pairs_ok pairs)"

text \<open>
  Two parser states that emit the same pairs from here on: the pairs so far agree, and
  the pending values agree or neither pending question is truthy.
\<close>

fun same_output :: "qa_state \<Rightarrow> qa_state \<Rightarrow> bool" where
  "same_output (cq, ca, pairs) (cq', ca', pairs') =
     (pairs = pairs' \<and> ((cq = cq' \<and> ca = ca') \<or> (\<not> truthy cq \<and> \<not> truthy cq')))"

text \<open>The watermark of a ledger: the index of the last record that has a card.\<close>

abbreviation watermark :: "qa_data \<Rightarrow> int" where
  "watermark data \<equiv> last_anki_card_index (metadata data)"

text \<open>
  The ledger states a run can reach: the fresh ledger of \<open>load_or_create_qa_file\<close>, and
  whatever the mutations of \<open>main\<close> make of a reachable ledger (lines 236--239,
  245--246, \<open>add_new_cards_to_deck\<close>, \<open>save_qa_data\<close>, line 268, line 272).
\<close>

inductive reachable :: "qa_data \<Rightarrow> bool" where
  fresh: "reachable initial_data"
| appended: "reachable data \<Longrightarrow> reachable (append_pairs page_num i pairs data)"
| updated: "reachable data \<Longrightarrow> reachable (update_metadata page_num data)"
| synchronized:
    "reachable data \<Longrightarrow> add_new_cards_to_deck deck data = (n, deck', data') \<Longrightarrow> reachable data'"
| saved: "reachable data \<Longrightarrow> save_qa_data now data filename w = (data', w') \<Longrightarrow> reachable data'"
| counted: "reachable data \<Longrightarrow> reachable (count_page data)"
| page_done: "reachable data \<Longrightarrow> reachable (set_last_page page_num data)"

text \<open>The ledger with which \<open>process_pages\<close> ends, normally or by an exception.\<close>

fun ledger_of :: "error \<times> run_state + run_state \<Rightarrow> qa_data" where
  "ledger_of (Inl (e, (data, deck, w))) = data"
| "ledger_of (Inr (data, deck, w)) = data"

subsection \<open>Example data\<close>

text \<open>A ledger after one part of page 10 gave one pair, before the deck is synchronized.\<close>

definition example_ledger :: qa_data where
  "example_ledger =
     update_metadata 10 (append_pairs 10 0 [\<lparr>question = ''Q'', answer = ''A''\<rparr>] initial_data)"

text \<open>A ledger file edited by hand: two records and the watermark \<open>-3\<close>.\<close>

definition skewed_ledger :: qa_data where
  "skewed_ledger =
     \<lparr>metadata = \<lparr>last_processed_page = 9, total_pages_processed = 0, total_questions = 2,
                   last_update = [], last_anki_card_index = - 3\<rparr>,
      qa_pairs = [\<lparr>question = ''Q1'', answer = ''A1'', page_number = 9, part_number = 1\<rparr>,
                  \<lparr>question = ''Q2'', answer = ''A2'', page_number = 9, part_number = 1\<rparr>]\<rparr>"

text \<open>A ledger of three records that has no card yet, and a world that stores it.\<close>

definition resume_ledger :: qa_data where
  "resume_ledger =
     \<lparr>metadata = \<lparr>last_processed_page = 9, total_pages_processed = 1, total_questions = 3,
                   last_update = ''2024-01-01T00:00:00'', last_anki_card_index = - 1\<rparr>,
      qa_pairs = [\<lparr>question = ''Q1'', answer = ''A1'', page_number = 8, part_number = 1\<rparr>,
                  \<lparr>question = ''Q2'', answer = ''A2'', page_number = 8, part_number = 2\<rparr>,
                  \<lparr>question = ''Q3'', answer = ''A3'', page_number = 9, part_number = 1\<rparr>]\<rparr>"

definition resume_world :: world where
  "resume_world =
     \<lparr>files = [''qa_data.json'' \<mapsto> Json resume_ledger], package = None, ticks = 0, announced = []\<rparr>"



section \<open>Properties of the chunker\<close>

lemma not_space_dot: "\<not> py_isspace CHR ''.''"
  by (simp add: py_isspace_def)

lemma space_space: "py_isspace CHR '' ''"
  by (simp add: py_isspace_def)

lemma strip_Nil: "strip [] = []"
  by (simp add: strip_def)

lemma strip_sentence: "strip (u @ ''. '') = dropWhile py_isspace u @ ''.''"
proof (cases "\<forall>c\<in>set u. py_isspace c")
  case True
  then have "dropWhile py_isspace (u @ ''. '') = ''. ''"
    by (simp add: dropWhile_append2 not_space_dot)
  moreover from True have "dropWhile py_isspace u = []" by simp
  ultimately show ?thesis
    by (simp add: strip_def space_space not_space_dot)
next
  case False
  then have "dropWhile py_isspace (u @ ''. '') = dropWhile py_isspace u @ ''. ''"
    by (auto simp: dropWhile_append1)
  then show ?thesis
    by (simp add: strip_def space_space not_space_dot)
qed

lemma length_strip_sentence: "length (strip (u @ ''. '')) \<le> length u + 1"
  by (simp add: strip_sentence le_SucI length_dropWhile_le)

lemma buffer_ok_strip:
  assumes "buffer_ok lim S cur"
  shows "part_ok lim S (strip cur)"
proof -
  from assms consider
      (empty) "cur = []"
    | (short) u where "cur = u @ ''. ''" "int (length u) + 1 \<le> lim"
    | (single) u where "cur = u @ ''. ''" "u \<in> S" "lim \<le> int (length u)"
    unfolding buffer_ok_def by blast
  then show ?thesis
  proof cases
    case empty
    then show ?thesis by (simp add: part_ok_def strip_Nil)
  next
    case short
    have "int (length (strip cur)) \<le> int (length u) + 1"
      using length_strip_sentence [of u] short(1) by simp
    with short(2) show ?thesis by (simp add: part_ok_def)
  next
    case single
    then show ?thesis unfolding part_ok_def by blast
  qed
qed

lemma chunk_loop_ok:
  "set ss \<subseteq> S \<Longrightarrow> \<forall>p\<in>set parts. part_ok lim S p \<Longrightarrow> buffer_ok lim S cur \<Longrightarrow>
   chunk_loop lim parts cur ss = (parts', cur') \<Longrightarrow>
   (\<forall>p\<in>set parts'. part_ok lim S p) \<and> buffer_ok lim S cur'"
proof (induction ss arbitrary: parts cur)
  case Nil
  then show ?case by simp
next
  case (Cons s ss)
  show ?case
  proof (cases "int (length cur) + int (length s) + 1 \<le> lim")
    case True
    have "buffer_ok lim S (cur @ s @ ''. '')"
      unfolding buffer_ok_def using True by (intro disjI2 exI [of _ "cur @ s"]) simp
    with Cons True show ?thesis by simp
  next
    case False
    have b: "buffer_ok lim S (s @ ''. '')"
      unfolding buffer_ok_def using Cons.prems(1) by (intro disjI2 exI [of _ s]) auto
    have p: "\<forall>p\<in>set (parts @ [strip cur]). part_ok lim S p"
      using Cons.prems(2,3) buffer_ok_strip by auto
    from Cons.prems(4) False
    have "chunk_loop lim (parts @ [strip cur]) (s @ ''. '') ss = (parts', cur')"
      by simp
    from Cons.IH [OF _ p b this] Cons.prems(1) show ?thesis by simp
  qed
qed

lemma chunk_loop_buffer_kept:
  "cur \<noteq> [] \<Longrightarrow> chunk_loop lim parts cur ss = (parts', cur') \<Longrightarrow> cur' \<noteq> []"
proof (induction ss arbitrary: parts cur)
  case Nil
  then show ?case by simp
next
  case (Cons s ss)
  show ?case
  proof (cases "int (length cur) + int (length s) + 1 \<le> lim")
    case True
    with Cons.prems(2) have "chunk_loop lim parts (cur @ s @ ''. '') ss = (parts', cur')" by simp
    from Cons.IH [OF _ this] show ?thesis by simp
  next
    case False
    with Cons.prems(2) have "chunk_loop lim (parts @ [strip cur]) (s @ ''. '') ss = (parts', cur')"
      by simp
    from Cons.IH [OF _ this] show ?thesis by simp
  qed
qed

lemma split_dot_nonempty: "split_dot xs \<noteq> []"
  by (induction xs rule: split_dot.induct) (auto split: list.splits)

text \<open>
  Whatever the text, the buffer is not empty when the loop ends, so the guard of line 119
  never skips the final part: the chunker always emits at least one part.
\<close>

lemma chunk_never_empty: "break_down_page_into_parts text limit \<noteq> []"
proof -
  obtain parts cur where c: "chunk_loop limit [] [] (split_dot text) = (parts, cur)"
    by (cases "chunk_loop limit [] [] (split_dot text)")
  obtain s ss where ss: "split_dot text = s # ss"
    using split_dot_nonempty [of "text"] by (cases "split_dot text") auto
  have "cur \<noteq> []"
  proof (cases "int (length s) + 1 \<le> limit")
    case True
    with c ss have "chunk_loop limit [] (s @ ''. '') ss = (parts, cur)" by simp
    from chunk_loop_buffer_kept [OF _ this] show ?thesis by simp
  next
    case False
    with c ss have "chunk_loop limit [strip []] (s @ ''. '') ss = (parts, cur)" by simp
    from chunk_loop_buffer_kept [OF _ this] show ?thesis by simp
  qed
  with c show ?thesis by (simp add: break_down_page_into_parts_def)
qed


text \<open>
  C7 (amended). Every part produced by \<open>break_down_page_into_parts\<close> is empty, or has at
  most \<open>limit\<close> characters, or consists of a single sentence of the text, with its delimiter
  put back, where the sentence has at least \<open>limit\<close> characters. (For a limit that is not
  negative the empty part is within the limit.)
\<close>

theorem chunk_part_bound:
  "p \<in> set (break_down_page_into_parts text limit) \<Longrightarrow>
   p = [] \<or> int (length p) \<le> limit \<or>
   (\<exists>s\<in>set (split_dot text). p = strip (s @ ''. '') \<and> limit \<le> int (length s))"
proof -
  assume a: "p \<in> set (break_down_page_into_parts text limit)"
  obtain parts cur where c: "chunk_loop limit [] [] (split_dot text) = (parts, cur)"
    by (cases "chunk_loop limit [] [] (split_dot text)")
  have "(\<forall>p\<in>set parts. part_ok limit (set (split_dot text)) p) \<and>
        buffer_ok limit (set (split_dot text)) cur"
    by (rule chunk_loop_ok [OF _ _ _ c]) (simp_all add: buffer_ok_def)
  then have "part_ok limit (set (split_dot text)) p"
    using a c buffer_ok_strip by (auto simp: break_down_page_into_parts_def split: if_splits)
  then show ?thesis by (simp add: part_ok_def)
qed

theorem chunk_part_bound_witness:
  "''ab. cd.'' \<in> set (break_down_page_into_parts ''ab. cd. efghijkl'' 8) \<and>
   (''ab. cd.'' = [] \<or> int (length ''ab. cd.'') \<le> 8 \<or>
    (\<exists>s\<in>set (split_dot ''ab. cd. efghijkl''). ''ab. cd.'' = strip (s @ ''. '') \<and> 8 \<le> int (length s)))"
proof -
  have h: "''ab. cd.'' \<in> set (break_down_page_into_parts ''ab. cd. efghijkl'' 8)"
    by (simp add: break_down_page_into_parts_def strip_def py_isspace_def)
  from h chunk_part_bound [OF h] show ?thesis by (rule conjI)
qed

text \<open>
  C7 as stated fails: with limit 3 the text \<open>abc\<close> is one sentence of 3 characters, not
  longer than the limit, and its part \<open>abc.\<close> has 4 characters.
\<close>

theorem chunk_limit_counterexample:
  "split_dot ''abc'' = [''abc''] \<and> \<not> 3 < int (length ''abc'') \<and>
   ''abc.'' \<in> set (break_down_page_into_parts ''abc'' 3) \<and> \<not> int (length ''abc.'') \<le> 3"
  by (simp add: break_down_page_into_parts_def strip_def py_isspace_def)




section \<open>Properties of the Q&A parser\<close>

lemma has_text_dropWhile: "has_text s \<Longrightarrow> dropWhile py_isspace s \<noteq> []"
  by (auto simp: has_text_def dropWhile_eq_Nil_conv)

lemma has_text_dropWhile_iff: "has_text (dropWhile py_isspace s) = has_text s"
proof -
  have "set s = set (takeWhile py_isspace s) \<union> set (dropWhile py_isspace s)"
    by (metis set_append takeWhile_dropWhile_id)
  moreover have "\<forall>c\<in>set (takeWhile py_isspace s). py_isspace c"
    by (auto dest: set_takeWhileD)
  ultimately show ?thesis unfolding has_text_def by blast
qed

lemma has_text_rev: "has_text (rev s) = has_text s"
  by (simp add: has_text_def)

lemma has_text_strip: "has_text (strip s) = has_text s"
  by (simp add: strip_def has_text_rev has_text_dropWhile_iff)

lemma has_text_nonempty: "has_text s \<Longrightarrow> s \<noteq> []"
  by (auto simp: has_text_def)

lemma strip_nonempty_iff: "strip s \<noteq> [] \<longleftrightarrow> has_text s"
proof
  assume "strip s \<noteq> []"
  then have "dropWhile py_isspace (rev (dropWhile py_isspace s)) \<noteq> []"
    by (simp add: strip_def)
  then have "has_text (rev (dropWhile py_isspace s))"
    by (auto simp: has_text_def dropWhile_eq_Nil_conv)
  then show "has_text s" by (simp add: has_text_rev has_text_dropWhile_iff)
next
  assume "has_text s"
  then have "has_text (strip s)" by (simp add: has_text_strip)
  then show "strip s \<noteq> []" by (rule has_text_nonempty)
qed

lemma dropWhile_space_ok: "dropWhile py_isspace s = [] \<or> has_text (dropWhile py_isspace s)"
proof (cases "dropWhile py_isspace s")
  case Nil then show ?thesis by simp
next
  case (Cons c cs)
  then have "\<not> py_isspace c" by (metis hd_dropWhile list.sel(1) list.distinct(1))
  with Cons show ?thesis by (auto simp: has_text_def)
qed

lemma match_marker_ok: "match_marker word line = Some r \<Longrightarrow> pending_ok (Some r)"
proof -
  assume "match_marker word line = Some r"
  then obtain s where "r = dropWhile py_isspace s"
    by (auto simp: match_marker_def split: if_splits)
  with dropWhile_space_ok [of s] show ?thesis by (simp add: pending_ok_def)
qed

lemma emit_ok: "pending_ok cq \<Longrightarrow> pending_ok ca \<Longrightarrow> pairs_ok pairs \<Longrightarrow> pairs_ok (emit cq ca pairs)"
  by (auto simp: emit_def pending_ok_def pairs_ok_def strip_nonempty_iff split: option.splits)

lemma qa_step_ok: "state_ok st \<Longrightarrow> state_ok (qa_step st raw)"
proof (cases st)
  case (fields cq ca pairs)
  assume ok: "state_ok st"
  show ?thesis
  proof (cases "strip raw = []")
    case True
    with ok fields show ?thesis by simp
  next
    case False
    then have t: "has_text (strip raw)" by (simp add: has_text_strip strip_nonempty_iff)
    then have a: "has_text (a @ '' '' @ strip raw)" for a by (auto simp: has_text_def)
    show ?thesis
      using ok fields False t a match_marker_ok emit_ok
      by (auto simp: Let_def pending_ok_def split: option.splits)
  qed
qed

lemma qa_loop_ok: "state_ok st \<Longrightarrow> state_ok (qa_loop st ls)"
  unfolding qa_loop_def by (induction ls arbitrary: st) (simp_all add: qa_step_ok)

lemma qa_finish_ok: "state_ok st \<Longrightarrow> pairs_ok (qa_finish st)"
  by (cases st) (simp add: emit_ok)

lemma extract_pairs_ok: "pairs_ok (extract_questions_and_answers text)"
proof (cases "text = []")
  case True then show ?thesis by (simp add: extract_questions_and_answers_def pairs_ok_def)
next
  case False
  have "state_ok (None, None, [])" by (simp add: pending_ok_def pairs_ok_def)
  then have "pairs_ok (qa_finish (qa_loop (None, None, []) (split_lines text)))"
    by (intro qa_finish_ok qa_loop_ok)
  with False show ?thesis by (simp add: extract_questions_and_answers_def)
qed

lemma emit_falsy: "\<not> truthy cq \<Longrightarrow> emit cq ca pairs = pairs"
  by (cases cq; cases ca) (simp_all add: emit_def)

lemma qa_step_same: "same_output st st' \<Longrightarrow> same_output (qa_step st raw) (qa_step st' raw)"
  by (cases st; cases st') (auto simp: Let_def emit_falsy split: option.splits)

lemma qa_loop_same: "same_output st st' \<Longrightarrow> same_output (qa_loop st ls) (qa_loop st' ls)"
  unfolding qa_loop_def by (induction ls arbitrary: st st') (simp_all add: qa_step_same)

lemma qa_finish_same: "same_output st st' \<Longrightarrow> qa_finish st = qa_finish st'"
  by (cases st; cases st') (auto simp: emit_falsy)

text \<open>
  C10. Every pair returned by \<open>extract_questions_and_answers\<close> has a non-empty question
  and a non-empty answer. After a question-marker line whose remainder is empty, the
  pairs returned in the end are those of a parser that has no pending question at that
  point (and has emitted the pair that was pending before the marker): whatever lines
  follow, the empty question yields no pair.
\<close>

theorem qa_pairs_nonempty:
  "(\<forall>p\<in>set (extract_questions_and_answers text). question p \<noteq> [] \<and> answer p \<noteq> []) \<and>
   (strip raw \<noteq> [] \<longrightarrow> match_marker ''question'' (strip raw) = Some [] \<longrightarrow>
      qa_finish (qa_loop (qa_step (cq, ca, pairs) raw) ls) =
      qa_finish (qa_loop (None, None, emit cq ca pairs) ls))"
proof (intro conjI impI)
  show "\<forall>p\<in>set (extract_questions_and_answers text). question p \<noteq> [] \<and> answer p \<noteq> []"
    using extract_pairs_ok [of "text"] by (simp add: pairs_ok_def)
next
  assume "strip raw \<noteq> []" "match_marker ''question'' (strip raw) = Some []"
  then have "qa_step (cq, ca, pairs) raw = (Some [], None, emit cq ca pairs)"
    by (simp add: Let_def)
  moreover have "same_output (Some [], None, emit cq ca pairs) (None, None, emit cq ca pairs)"
    by simp
  ultimately show "qa_finish (qa_loop (qa_step (cq, ca, pairs) raw) ls) =
      qa_finish (qa_loop (None, None, emit cq ca pairs) ls)"
    by (simp add: qa_finish_same qa_loop_same)
qed

theorem qa_pairs_nonempty_witness:
  "\<lparr>question = ''Q'', answer = ''A''\<rparr> \<in> set (extract_questions_and_answers (''Question 1 Q'' @ [CHR 0x0A] @ ''Answer 1 A'')) \<and>
   question \<lparr>question = ''Q'', answer = ''A''\<rparr> \<noteq> [] \<and> answer \<lparr>question = ''Q'', answer = ''A''\<rparr> \<noteq> [] \<and>
   strip ''Question 1'' \<noteq> [] \<and> match_marker ''question'' (strip ''Question 1'') = Some [] \<and>
   qa_finish (qa_loop (qa_step (None, None, []) ''Question 1'') [''Which?'', ''Answer 1'', ''Water'']) =
   qa_finish (qa_loop (None, None, emit None None []) [''Which?'', ''Answer 1'', ''Water''])"
proof -
  have m: "\<lparr>question = ''Q'', answer = ''A''\<rparr> \<in> set (extract_questions_and_answers (''Question 1 Q'' @ [CHR 0x0A] @ ''Answer 1 A''))"
    by code_simp
  have h1: "strip ''Question 1'' \<noteq> []" by code_simp
  have h2: "match_marker ''question'' (strip ''Question 1'') = Some []" by code_simp
  from m h1 h2
    qa_pairs_nonempty [of "''Question 1 Q'' @ [CHR 0x0A] @ ''Answer 1 A''" "''Question 1''" None None "[]"
      "[''Which?'', ''Answer 1'', ''Water'']"]
  show ?thesis by blast
qed

text \<open>
  C1 (amended). With the question on its marker line, the text
  \<open>Question 1 What is H2O?\<close>, \<open>Answer 1\<close>, \<open>Water\<close>, \<open>It is a compound.\<close> (four lines) yields
  exactly the pair of the claim; and in general a line that is not blank and carries no
  marker is appended to a pending answer after a single space.
\<close>

theorem qa_continuation:
  "extract_questions_and_answers
     (''Question 1 What is H2O?'' @ [CHR 0x0A] @ ''Answer 1'' @ [CHR 0x0A] @ ''Water'' @ [CHR 0x0A] @
      ''It is a compound.'') =
   [\<lparr>question = ''What is H2O?'', answer = ''Water It is a compound.''\<rparr>] \<and>
   (strip raw \<noteq> [] \<longrightarrow> match_marker ''question'' (strip raw) = None \<longrightarrow>
    match_marker ''answer'' (strip raw) = None \<longrightarrow>
    qa_step (cq, Some a, pairs) raw = (cq, Some (a @ '' '' @ strip raw), pairs))"
proof (intro conjI impI)
  show "extract_questions_and_answers
     (''Question 1 What is H2O?'' @ [CHR 0x0A] @ ''Answer 1'' @ [CHR 0x0A] @ ''Water'' @ [CHR 0x0A] @
      ''It is a compound.'') =
   [\<lparr>question = ''What is H2O?'', answer = ''Water It is a compound.''\<rparr>]"
    by code_simp
next
  assume "strip raw \<noteq> []" "match_marker ''question'' (strip raw) = None"
    "match_marker ''answer'' (strip raw) = None"
  then show "qa_step (cq, Some a, pairs) raw = (cq, Some (a @ '' '' @ strip raw), pairs)"
    by (simp add: Let_def)
qed

theorem qa_continuation_witness:
  "strip '' It is a compound.'' \<noteq> [] \<and>
   match_marker ''question'' (strip '' It is a compound.'') = None \<and>
   match_marker ''answer'' (strip '' It is a compound.'') = None \<and>
   qa_step (Some ''What is H2O?'', Some '' Water'', []) '' It is a compound.'' =
     (Some ''What is H2O?'', Some ('' Water'' @ '' '' @ strip '' It is a compound.''), [])"
proof -
  have h1: "strip '' It is a compound.'' \<noteq> []" by code_simp
  have h2: "match_marker ''question'' (strip '' It is a compound.'') = None" by code_simp
  have h3: "match_marker ''answer'' (strip '' It is a compound.'') = None" by code_simp
  from h1 h2 h3
    qa_continuation [of "'' It is a compound.''" "Some ''What is H2O?''" "'' Water''" "[]"]
  show ?thesis by blast
qed

text \<open>
  C1 as stated fails: on the text of the claim the line \<open>Question 1\<close> sets the pending
  question to the empty string, which is not truthy, so \<open>What is H2O?\<close> is dropped
  (line 169) and no pair is emitted at the end (line 172).
\<close>

theorem qa_spec_example_counterexample:
  "extract_questions_and_answers
     (''Question 1'' @ [CHR 0x0A] @ ''What is H2O?'' @ [CHR 0x0A] @ ''Answer 1'' @ [CHR 0x0A] @
      ''Water'' @ [CHR 0x0A] @ ''It is a compound.'') = []"
  by code_simp

section \<open>Properties of turn extraction\<close>

lemma span_len_le: "span_len xs \<le> length xs"
  by (induction xs) auto

lemma span_len_terminator: "at_terminator (drop (span_len xs) xs)"
  by (induction xs) (auto simp: at_terminator_def)

lemma span_len_first: "k < span_len xs \<Longrightarrow> \<not> at_terminator (drop k xs)"
proof (induction xs arbitrary: k)
  case Nil
  then show ?case by simp
next
  case (Cons c cs)
  then show ?case by (cases k) (auto split: if_splits)
qed

lemma span_take_drop:
  "at_terminator (drop (span_len r) r) \<and>
   (\<forall>k<length (take (span_len r) r). \<not> at_terminator (drop k (take (span_len r) r @ drop (span_len r) r)))"
  using span_len_le [of r] span_len_terminator [of r] span_len_first [of _ r] by simp

lemma starts_with_split: "starts_with m xs \<Longrightarrow> xs = m @ drop (length m) xs"
  by (metis append_take_drop_id starts_with_def)

lemma findall_spans:
  "span \<in> set (findall_assistant text) \<Longrightarrow>
   \<exists>pre post. text = pre @ ''<|assistant|>'' @ span @ post \<and> at_terminator post \<and>
     (\<forall>k<length span. \<not> at_terminator (drop k (span @ post)))"
proof (induction "text" rule: findall_assistant.induct)
  case 1
  then show ?case by simp
next
  case (2 c cs)
  let ?rest = "drop 12 cs"
  let ?n = "span_len ?rest"
  show ?case
  proof (cases "starts_with ''<|assistant|>'' (c # cs)")
    case True
    have d: "drop (length ''<|assistant|>'') (c # cs) = ?rest" by (simp add: eval_nat_numeral)
    have whole: "c # cs = ''<|assistant|>'' @ ?rest"
      using starts_with_split [OF True] unfolding d .
    from 2(3) True consider (here) "span = take ?n ?rest"
      | (later) "span \<in> set (findall_assistant (drop ?n ?rest))" by auto
    then show ?thesis
    proof cases
      case here
      have "c # cs = [] @ ''<|assistant|>'' @ span @ drop ?n ?rest"
        unfolding here append_take_drop_id append_Nil by (rule whole)
      moreover have "at_terminator (drop ?n ?rest) \<and>
         (\<forall>k<length span. \<not> at_terminator (drop k (span @ drop ?n ?rest)))"
        unfolding here by (rule span_take_drop)
      ultimately show ?thesis by blast
    next
      case later
      from 2(1) [OF True later] obtain pre post where
        p: "drop ?n ?rest = pre @ ''<|assistant|>'' @ span @ post" "at_terminator post"
           "\<forall>k<length span. \<not> at_terminator (drop k (span @ post))" by blast
      have "c # cs = (''<|assistant|>'' @ take ?n ?rest @ pre) @ ''<|assistant|>'' @ span @ post"
        unfolding append_assoc p(1) [symmetric] append_take_drop_id by (rule whole)
      with p(2,3) show ?thesis by blast
    qed
  next
    case False
    with 2(3) have "span \<in> set (findall_assistant cs)" by simp
    from 2(2) [OF False this] obtain pre post where
      p: "cs = pre @ ''<|assistant|>'' @ span @ post" "at_terminator post"
         "\<forall>k<length span. \<not> at_terminator (drop k (span @ post))" by blast
    from p(1) have "c # cs = (c # pre) @ ''<|assistant|>'' @ span @ post" by simp
    with p(2,3) show ?thesis by blast
  qed
qed

lemma findall_finds:
  "text = pre @ ''<|assistant|>'' @ post \<Longrightarrow> findall_assistant text \<noteq> []"
proof (induction "text" arbitrary: pre rule: findall_assistant.induct)
  case 1
  then show ?case by simp
next
  case (2 c cs)
  show ?case
  proof (cases "starts_with ''<|assistant|>'' (c # cs)")
    case True
    then show ?thesis by simp
  next
    case False
    have "pre \<noteq> []"
    proof
      assume "pre = []"
      with 2(3) have "starts_with ''<|assistant|>'' (c # cs)" by (simp add: starts_with_def)
      with False show False by simp
    qed
    then obtain p ps where "pre = p # ps" by (cases pre) auto
    with 2(3) have "cs = ps @ ''<|assistant|>'' @ post" by simp
    from 2(2) [OF False this] False show ?thesis by simp
  qed
qed

lemma findall_empty_iff:
  "findall_assistant text = [] \<longleftrightarrow> \<not> (\<exists>pre post. text = pre @ ''<|assistant|>'' @ post)"
proof
  assume "findall_assistant text = []"
  then show "\<not> (\<exists>pre post. text = pre @ ''<|assistant|>'' @ post)"
    using findall_finds by blast
next
  assume n: "\<not> (\<exists>pre post. text = pre @ ''<|assistant|>'' @ post)"
  show "findall_assistant text = []"
  proof (rule ccontr)
    assume "findall_assistant text \<noteq> []"
    then obtain s where "s \<in> set (findall_assistant text)" by (cases "findall_assistant text") auto
    from findall_spans [OF this] obtain pre post where
      "text = pre @ ''<|assistant|>'' @ s @ post" by blast
    with n show False by blast
  qed
qed

lemma extract_None_iff:
  "extract_assistant_responses text = None \<longleftrightarrow> (\<forall>s\<in>set (findall_assistant text). strip s = [])"
proof -
  have "extract_assistant_responses text = None \<longleftrightarrow>
        filter (\<lambda>response. strip response \<noteq> []) (findall_assistant text) = []"
    by (cases "filter (\<lambda>response. strip response \<noteq> []) (findall_assistant text)")
      (simp_all add: extract_assistant_responses_def cleaned_responses_def)
  then show ?thesis by (simp add: filter_empty_conv)
qed

lemma extract_Some:
  assumes "extract_assistant_responses text = Some r"
  shows "r \<noteq> [] \<and> (\<exists>before span after. findall_assistant text = before @ span # after \<and>
           (\<forall>s\<in>set before. strip s = []) \<and> r = strip span)"
proof -
  from assms obtain rs where "cleaned_responses text = r # rs"
    by (auto simp: extract_assistant_responses_def split: list.splits)
  then obtain y ys where f: "filter (\<lambda>response. strip response \<noteq> []) (findall_assistant text) = y # ys"
    and r: "r = strip y"
    by (auto simp: cleaned_responses_def)
  from f obtain us vs where "findall_assistant text = us @ y # vs" "\<forall>u\<in>set us. \<not> strip u \<noteq> []" "strip y \<noteq> []"
    unfolding filter_eq_Cons_iff by blast
  with r show ?thesis by auto
qed

text \<open>
  C6 (amended). A span of the transcript lies between an assistant marker and the next
  system marker, user marker, end of the string or final newline; an assistant marker
  does not end a span. The spans are the matches found from the left without overlap.
  Turn extraction returns the first span that is not empty after trimming, trimmed; it
  returns none exactly when every span is empty after trimming, and there is no span at
  all exactly when the assistant marker does not occur. On the transcript of the claim it
  returns \<open>A\<close>.
\<close>

theorem turn_extraction:
  "(extract_assistant_responses text = None \<longleftrightarrow> (\<forall>s\<in>set (findall_assistant text). strip s = [])) \<and>
   (findall_assistant text = [] \<longleftrightarrow> \<not> (\<exists>pre post. text = pre @ ''<|assistant|>'' @ post)) \<and>
   (extract_assistant_responses text = Some r \<longrightarrow>
      r \<noteq> [] \<and> (\<exists>before span after. findall_assistant text = before @ span # after \<and>
                  (\<forall>s\<in>set before. strip s = []) \<and> r = strip span)) \<and>
   (span \<in> set (findall_assistant text) \<longrightarrow>
      (\<exists>pre post. text = pre @ ''<|assistant|>'' @ span @ post \<and> at_terminator post \<and>
         (\<forall>k<length span. \<not> at_terminator (drop k (span @ post))))) \<and>
   extract_assistant_responses ''<|assistant|>A<|user|>B<|assistant|>C'' = Some ''A''"
proof (intro conjI impI)
  show "extract_assistant_responses text = None \<longleftrightarrow> (\<forall>s\<in>set (findall_assistant text). strip s = [])"
    by (rule extract_None_iff)
  show "findall_assistant text = [] \<longleftrightarrow> \<not> (\<exists>pre post. text = pre @ ''<|assistant|>'' @ post)"
    by (rule findall_empty_iff)
  show "extract_assistant_responses ''<|assistant|>A<|user|>B<|assistant|>C'' = Some ''A''"
    by code_simp
next
  assume "extract_assistant_responses text = Some r"
  from extract_Some [OF this]
  show "r \<noteq> []"
    and "\<exists>before span after. findall_assistant text = before @ span # after \<and>
                  (\<forall>s\<in>set before. strip s = []) \<and> r = strip span"
    by blast+
next
  assume "span \<in> set (findall_assistant text)"
  then show "\<exists>pre post. text = pre @ ''<|assistant|>'' @ span @ post \<and> at_terminator post \<and>
         (\<forall>k<length span. \<not> at_terminator (drop k (span @ post)))"
    by (rule findall_spans)
qed

theorem turn_extraction_witness:
  "extract_assistant_responses ''x<|assistant|> <|system|><|assistant|> hi <|user|>B'' = Some ''hi'' \<and>
   ''hi'' \<noteq> [] \<and>
   (\<exists>before span after.
      findall_assistant ''x<|assistant|> <|system|><|assistant|> hi <|user|>B'' = before @ span # after \<and>
      (\<forall>s\<in>set before. strip s = []) \<and> ''hi'' = strip span)"
proof -
  have h: "extract_assistant_responses ''x<|assistant|> <|system|><|assistant|> hi <|user|>B'' = Some ''hi''"
    by code_simp
  from h turn_extraction [of "''x<|assistant|> <|system|><|assistant|> hi <|user|>B''" "''hi''"]
  show ?thesis by blast
qed

text \<open>
  C6 as stated fails: an assistant marker does not end a span. The span after the first
  marker of the transcript below runs to the end of the string, where the claim has \<open>A\<close>.
\<close>

theorem turn_extraction_counterexample:
  "extract_assistant_responses ''<|assistant|>A<|assistant|>B'' = Some ''A<|assistant|>B''"
  by code_simp

section \<open>Properties of the deck synchronizer and the ledger\<close>

lemma fold_add_card:
  "fold add_card (enumerate_from k xs) (n, deck, data) =
     (n + int (length xs), deck @ map make_note xs,
      if xs = [] then data
      else data\<lparr>metadata := (metadata data)\<lparr>last_anki_card_index := k + int (length xs) - 1\<rparr>\<rparr>)"
proof (induction xs arbitrary: k n deck data)
  case Nil
  then show ?case by simp
next
  case (Cons x xs)
  then show ?case by (cases "xs = []") simp_all
qed

lemma add_new_cards_eq:
  "add_new_cards_to_deck deck data =
     (let new = py_slice_from (watermark data + 1) (qa_pairs data)
      in (int (length new), deck @ map make_note new,
          if new = [] then data
          else data\<lparr>metadata := (metadata data)\<lparr>last_anki_card_index := watermark data + int (length new)\<rparr>\<rparr>))"
  by (simp add: add_new_cards_to_deck_def fold_add_card Let_def)

lemma add_new_cards_pairs:
  "add_new_cards_to_deck deck data = (n, deck', data') \<Longrightarrow> qa_pairs data' = qa_pairs data"
  by (auto simp: add_new_cards_eq Let_def split: if_splits)

lemma add_new_cards_monotone:
  "add_new_cards_to_deck deck data = (n, deck', data') \<Longrightarrow> watermark data \<le> watermark data'"
  by (auto simp: add_new_cards_eq Let_def split: if_splits)

lemma slice_from_nonneg: "0 \<le> k \<Longrightarrow> py_slice_from k xs = drop (nat k) xs"
  by (simp add: py_slice_from_def)

lemma add_new_cards_current:
  assumes "- 1 \<le> watermark data" "add_new_cards_to_deck deck data = (n, deck', data')"
  shows "n = int (length (drop (nat (watermark data + 1)) (qa_pairs data)))"
    and "deck' = deck @ map make_note (drop (nat (watermark data + 1)) (qa_pairs data))"
    and "0 < n \<Longrightarrow> watermark data' = int (length (qa_pairs data)) - 1"
    and "n = 0 \<Longrightarrow> data' = data"
  using assms by (auto simp: add_new_cards_eq Let_def slice_from_nonneg split: if_splits)

lemma append_pairs_eq:
  "append_pairs page_num i pairs data = data\<lparr>qa_pairs := qa_pairs data @ map (stamp page_num i) pairs\<rparr>"
  unfolding append_pairs_def by (induction pairs arbitrary: data) simp_all

lemma watermark_inv_sync:
  assumes "- 1 \<le> watermark data" "watermark data < int (length (qa_pairs data))"
    "add_new_cards_to_deck deck data = (n, deck', data')"
  shows "- 1 \<le> watermark data' \<and> watermark data' < int (length (qa_pairs data'))"
  using assms by (auto simp: add_new_cards_eq Let_def slice_from_nonneg split: if_splits)

lemma reachable_watermark:
  "reachable data \<Longrightarrow> - 1 \<le> watermark data \<and> watermark data < int (length (qa_pairs data))"
proof (induction rule: reachable.induct)
  case fresh
  show ?case by (simp add: initial_data_def)
next
  case (appended data page_num i pairs)
  then show ?case by (simp add: append_pairs_eq)
next
  case (updated data page_num)
  then show ?case by (simp add: update_metadata_def)
next
  case (synchronized data deck n deck' data')
  then show ?case using watermark_inv_sync by blast
next
  case (saved data now filename w data' w')
  then show ?case by (auto simp: save_qa_data_def Let_def)
next
  case (counted data)
  then show ?case by (simp add: count_page_def)
next
  case (page_done data page_num)
  then show ?case by (simp add: set_last_page_def)
qed

lemma add_new_cards_last:
  assumes "- 1 \<le> watermark data" "add_new_cards_to_deck deck data = (n, deck', data')" "0 < n"
  shows "last deck' = make_note (last (qa_pairs data))"
proof -
  let ?new = "drop (nat (watermark data + 1)) (qa_pairs data)"
  from add_new_cards_current(1) [OF assms(1,2)] assms(3) have ne: "?new \<noteq> []" by auto
  then have "last (map make_note ?new) = make_note (last ?new)" by (simp add: last_map)
  moreover from ne have "last ?new = last (qa_pairs data)" by simp
  ultimately show ?thesis
    using add_new_cards_current(2) [OF assms(1,2)] ne by simp
qed

text \<open>
  C3 (amended). For every deck and every ledger whose watermark is at least \<open>-1\<close>, a
  second \<open>add_new_cards_to_deck\<close> right after the first returns 0 and changes neither the
  deck nor the ledger.
\<close>

theorem sync_idempotent:
  assumes "- 1 \<le> watermark data" and "add_new_cards_to_deck deck data = (n, deck1, data1)"
  shows "add_new_cards_to_deck deck1 data1 = (0, deck1, data1)"
proof (cases "0 < n")
  case True
  from add_new_cards_current(3) [OF assms True] add_new_cards_pairs [OF assms(2)]
  have "watermark data1 + 1 = int (length (qa_pairs data1))" by simp
  then show ?thesis by (simp add: add_new_cards_eq py_slice_from_def)
next
  case False
  with add_new_cards_current(1) [OF assms] have n: "n = 0" by simp
  from add_new_cards_current(4) [OF assms n] add_new_cards_current(2) [OF assms]
    add_new_cards_current(1) [OF assms] n
  have "data1 = data" "deck1 = deck" by simp_all
  with assms(2) n show ?thesis by simp
qed

theorem sync_idempotent_witness:
  "- 1 \<le> watermark example_ledger \<and>
   add_new_cards_to_deck [] example_ledger =
     (1, [[''Q'', ''A'', ''10'']],
      example_ledger\<lparr>metadata := (metadata example_ledger)\<lparr>last_anki_card_index := 0\<rparr>\<rparr>) \<and>
   add_new_cards_to_deck [[''Q'', ''A'', ''10'']]
     (example_ledger\<lparr>metadata := (metadata example_ledger)\<lparr>last_anki_card_index := 0\<rparr>\<rparr>) =
     (0, [[''Q'', ''A'', ''10'']],
      example_ledger\<lparr>metadata := (metadata example_ledger)\<lparr>last_anki_card_index := 0\<rparr>\<rparr>)"
proof -
  have h1: "- 1 \<le> watermark example_ledger"
    by (simp add: example_ledger_def update_metadata_def append_pairs_def initial_data_def)
  have h2: "add_new_cards_to_deck [] example_ledger =
     (1, [[''Q'', ''A'', ''10'']],
      example_ledger\<lparr>metadata := (metadata example_ledger)\<lparr>last_anki_card_index := 0\<rparr>\<rparr>)"
    by code_simp
  from h1 h2 sync_idempotent [OF h1 h2] show ?thesis by (intro conjI)
qed

text \<open>
  C3 as stated fails: for a ledger with two records and the watermark \<open>-3\<close> the first call
  takes the slice from \<open>-2\<close> and leaves the watermark at \<open>-1\<close>, so the second call adds
  both records again.
\<close>

theorem sync_idempotent_counterexample:
  "fst (add_new_cards_to_deck (fst (snd (add_new_cards_to_deck [] skewed_ledger)))
          (snd (snd (add_new_cards_to_deck [] skewed_ledger)))) = 2"
  by (simp add: add_new_cards_eq skewed_ledger_def py_slice_from_def Let_def)

text \<open>Every ledger that \<open>main\<close> holds or returns is reachable, if the stored one is.\<close>

lemma sync_deck_reachable:
  "reachable data \<Longrightarrow> sync_deck deck data w = (deck', data', w') \<Longrightarrow> reachable data'"
  by (auto simp: sync_deck_def split: prod.splits intro: reachable.synchronized)

lemma process_parts_reachable:
  "reachable data \<Longrightarrow>
   process_parts now gen page_num parts (data, deck, w, flag) = (data', deck', w', flag') \<Longrightarrow>
   reachable data'"
proof (induction parts arbitrary: data deck w flag)
  case Nil
  then show ?case by simp
next
  case (Cons ip parts)
  obtain i part where ip: "ip = (i, part)" by (cases ip)
  show ?case
  proof (cases "gen part")
    case (Inl e)
    with Cons.prems(2) ip
    have "process_parts now gen page_num parts (data, deck, w, flag) = (data', deck', w', flag')"
      by simp
    from Cons.IH [OF Cons.prems(1) this] show ?thesis .
  next
    case (Inr result)
    show ?thesis
    proof (cases "extract_assistant_responses result")
      case None
      with Cons.prems(2) ip Inr
      have "process_parts now gen page_num parts (data, deck, w, flag) = (data', deck', w', flag')"
        by simp
      from Cons.IH [OF Cons.prems(1) this] show ?thesis .
    next
      case (Some response)
      show ?thesis
      proof (cases "response = [] \<or> extract_questions_and_answers response = []")
        case True
        with Cons.prems(2) ip Inr Some
        have "process_parts now gen page_num parts (data, deck, w, flag) = (data', deck', w', flag')"
          by (auto split: if_splits)
        from Cons.IH [OF Cons.prems(1) this] show ?thesis .
      next
        case False
        then obtain p ps where ps: "extract_questions_and_answers response = p # ps"
          by (cases "extract_questions_and_answers response") auto
        obtain deck1 data1 w1 where
          sd: "sync_deck deck (update_metadata page_num (append_pairs page_num i (p # ps) data)) w
                = (deck1, data1, w1)"
          by (cases "sync_deck deck (update_metadata page_num (append_pairs page_num i (p # ps) data)) w")
        obtain data2 w2 where sv: "save_qa_data now data1 ''qa_data.json'' w1 = (data2, w2)"
          by (cases "save_qa_data now data1 ''qa_data.json'' w1")
        have "reachable data1"
          using sync_deck_reachable [OF _ sd] Cons.prems(1)
          by (simp add: reachable.appended reachable.updated)
        then have r2: "reachable data2" using sv by (rule reachable.saved)
        from Cons.prems(2) ip Inr Some False ps sd sv
        have "process_parts now gen page_num parts (data2, deck1, w2, True) = (data', deck', w', flag')"
          by simp
        from Cons.IH [OF r2 this] show ?thesis .
      qed
    qed
  qed
qed

lemma process_pages_reachable:
  "reachable data \<Longrightarrow> reachable (ledger_of (process_pages now gen pages (data, deck, w)))"
proof (induction pages arbitrary: data deck w)
  case Nil
  then show ?case by simp
next
  case (Cons np pages)
  obtain page_num page where np: "np = (page_num, page)" by (cases np)
  let ?w0 = "w\<lparr>announced := announced w @ [page_num]\<rparr>"
  show ?case
  proof (cases page)
    case (Inl e)
    with Cons.prems np show ?thesis by simp
  next
    case (Inr t)
    show ?thesis
    proof (cases "t = None \<or> t = Some []")
      case True
      with Cons np Inr show ?thesis by (auto simp: Let_def)
    next
      case False
      then obtain body where t: "t = Some body" "body \<noteq> []" by (cases t) auto
      obtain data1 deck1 w1 flag where
        pp: "process_parts now gen page_num (enumerate_from 0 (break_down_page_into_parts body 500))
               (data, deck, ?w0, False) = (data1, deck1, w1, flag)"
        by (cases "process_parts now gen page_num (enumerate_from 0 (break_down_page_into_parts body 500))
               (data, deck, ?w0, False)")
      obtain data2 w2 where
        c: "(if flag then save_qa_data now (count_page data1) ''qa_data.json'' w1 else (data1, w1)) = (data2, w2)"
        by (cases "if flag then save_qa_data now (count_page data1) ''qa_data.json'' w1 else (data1, w1)")
      obtain data3 w3 where
        sv: "save_qa_data now (set_last_page page_num data2) ''qa_data.json'' w2 = (data3, w3)"
        by (cases "save_qa_data now (set_last_page page_num data2) ''qa_data.json'' w2")
      have r1: "reachable data1" using process_parts_reachable [OF Cons.prems pp] .
      have r2: "reachable data2"
      proof (cases flag)
        case True
        with c have "save_qa_data now (count_page data1) ''qa_data.json'' w1 = (data2, w2)" by simp
        with reachable.counted [OF r1] show ?thesis by (rule reachable.saved)
      next
        case False
        with c r1 show ?thesis by simp
      qed
      have r3: "reachable data3"
        using reachable.saved [OF reachable.page_done [OF r2] sv] .
      have "process_pages now gen (np # pages) (data, deck, w) = process_pages now gen pages (data3, deck1, w3)"
        using np Inr t pp c sv by (simp add: Let_def)
      with Cons.IH [OF r3] show ?thesis by simp
    qed
  qed
qed

lemma load_reachable:
  "(\<And>data. files w path = Some (Json data) \<Longrightarrow> reachable data) \<Longrightarrow>
   load_or_create_qa_file path w = Inr (Ledger data0, w0) \<Longrightarrow> reachable data0"
  by (auto simp: load_or_create_qa_file_def reachable.fresh split: option.splits file_content.splits)

lemma main_loaded:
  assumes "main now gen pdf w = Inr result"
  obtains data0 w0 where "load_or_create_qa_file ''qa_data.json'' w = Inr (Ledger data0, w0)"
proof (cases "load_or_create_qa_file ''qa_data.json'' w")
  case (Inl e)
  with assms show ?thesis by (simp add: main_def)
next
  case (Inr lw)
  obtain l w0 where lw: "lw = (l, w0)" by (cases lw)
  show ?thesis
  proof (cases l)
    case (Ledger data0)
    with Inr lw that show ?thesis by simp
  next
    case NotLedger
    with Inr lw assms show ?thesis by (simp add: main_def)
  qed
qed

lemma main_reachable:
  assumes "\<And>data. files w ''qa_data.json'' = Some (Json data) \<Longrightarrow> reachable data"
    and "main now gen pdf w = Inr (e, data', deck', w')"
  shows "reachable data'"
proof -
  from main_loaded [OF assms(2)] obtain data0 w0 where
    l: "load_or_create_qa_file ''qa_data.json'' w = Inr (Ledger data0, w0)" .
  obtain deck data w1 where sd: "sync_deck [] data0 w0 = (deck, data, w1)"
    by (cases "sync_deck [] data0 w0")
  have r0: "reachable data0" using load_reachable [OF assms(1) l] .
  have r: "reachable data" using sync_deck_reachable [OF r0 sd] .
  show ?thesis
  proof (cases pdf)
    case (Inl err)
    with assms(2) l sd have "fst (save_qa_data now data ''qa_data.json'' w1) = data'"
      by (auto simp: main_def Let_def split: prod.splits)
    with r show ?thesis
      by (metis reachable.saved prod.collapse)
  next
    case (Inr pages)
    let ?start = "last_processed_page (metadata data) + 1"
    show ?thesis
    proof (cases "?start \<ge> int (length pages)")
      case True
      with assms(2) l sd Inr r show ?thesis by (simp add: main_def Let_def)
    next
      case False
      let ?res = "process_pages now gen (enumerate_from ?start (py_slice_from ?start pages)) (data, deck, w1)"
      have rr: "reachable (ledger_of ?res)" using process_pages_reachable [OF r] .
      show ?thesis
      proof (cases ?res)
        case (Inl x)
        obtain err d dk ww where x: "x = (err, (d, dk, ww))" by (cases x) auto
        with Inl rr have rd: "reachable d" by simp
        from assms(2) l sd Inr False Inl x have "fst (save_qa_data now d ''qa_data.json'' ww) = data'"
          by (auto simp: main_def Let_def split: prod.splits)
        with rd show ?thesis by (metis reachable.saved prod.collapse)
      next
        case (Inr st)
        obtain d dk ww where st: "st = (d, dk, ww)" by (cases st) auto
        with Inr rr have rd: "reachable d" by simp
        from assms(2) l sd \<open>pdf = Inr pages\<close> False Inr st have "d = data'"
          by (simp add: main_def Let_def)
        with rd show ?thesis by simp
      qed
    qed
  qed
qed


text \<open>
  C5. In every reachable ledger the watermark is below the number of records (and at
  least \<open>-1\<close>); appending the pairs of a part (lines 236--246) adds the stamped records at
  the end and leaves the watermark alone; \<open>add_new_cards_to_deck\<close> never lowers the
  watermark, and when it adds a card to a ledger whose watermark is at least \<open>-1\<close>, the new
  watermark is the index of the last record, whose card is the last of the deck.
\<close>

theorem watermark_invariant:
  "(reachable data \<longrightarrow> - 1 \<le> watermark data \<and> watermark data < int (length (qa_pairs data))) \<and>
   watermark (update_metadata page_num (append_pairs page_num i pairs data)) = watermark data \<and>
   qa_pairs (update_metadata page_num (append_pairs page_num i pairs data)) =
     qa_pairs data @ map (stamp page_num i) pairs \<and>
   (add_new_cards_to_deck deck data = (n, deck', data') \<longrightarrow>
      watermark data \<le> watermark data' \<and>
      (- 1 \<le> watermark data \<longrightarrow> 0 < n \<longrightarrow>
         watermark data' = int (length (qa_pairs data)) - 1 \<and>
         last deck' = make_note (last (qa_pairs data))))"
proof (intro conjI impI)
  assume "reachable data"
  then show "- 1 \<le> watermark data" and "watermark data < int (length (qa_pairs data))"
    using reachable_watermark by blast+
next
  show "watermark (update_metadata page_num (append_pairs page_num i pairs data)) = watermark data"
    by (simp add: update_metadata_def append_pairs_eq)
  show "qa_pairs (update_metadata page_num (append_pairs page_num i pairs data)) =
     qa_pairs data @ map (stamp page_num i) pairs"
    by (simp add: update_metadata_def append_pairs_eq)
next
  assume "add_new_cards_to_deck deck data = (n, deck', data')"
  then show "watermark data \<le> watermark data'" by (rule add_new_cards_monotone)
next
  assume a: "add_new_cards_to_deck deck data = (n, deck', data')" "- 1 \<le> watermark data" "0 < n"
  from add_new_cards_current(3) [OF a(2,1,3)]
  show "watermark data' = int (length (qa_pairs data)) - 1" .
  from add_new_cards_last [OF a(2,1,3)]
  show "last deck' = make_note (last (qa_pairs data))" .
qed

theorem watermark_invariant_witness:
  "reachable example_ledger \<and>
   add_new_cards_to_deck [] example_ledger =
     (1, [[''Q'', ''A'', ''10'']],
      example_ledger\<lparr>metadata := (metadata example_ledger)\<lparr>last_anki_card_index := 0\<rparr>\<rparr>) \<and>
   - 1 \<le> watermark example_ledger \<and> (0::int) < 1 \<and>
   watermark example_ledger < int (length (qa_pairs example_ledger)) \<and>
   watermark example_ledger \<le>
     watermark (example_ledger\<lparr>metadata := (metadata example_ledger)\<lparr>last_anki_card_index := 0\<rparr>\<rparr>) \<and>
   watermark (example_ledger\<lparr>metadata := (metadata example_ledger)\<lparr>last_anki_card_index := 0\<rparr>\<rparr>) =
     int (length (qa_pairs example_ledger)) - 1 \<and>
   last [[''Q'', ''A'', ''10'']] = make_note (last (qa_pairs example_ledger))"
proof -
  have r: "reachable example_ledger"
    unfolding example_ledger_def by (intro reachable.updated reachable.appended reachable.fresh)
  have s: "add_new_cards_to_deck [] example_ledger =
     (1, [[''Q'', ''A'', ''10'']],
      example_ledger\<lparr>metadata := (metadata example_ledger)\<lparr>last_anki_card_index := 0\<rparr>\<rparr>)"
    by code_simp
  have p: "(0::int) < 1" by simp
  from r s p
    watermark_invariant [of example_ledger 10 0 "[]" "[]" 1 "[[''Q'', ''A'', ''10'']]"
      "example_ledger\<lparr>metadata := (metadata example_ledger)\<lparr>last_anki_card_index := 0\<rparr>\<rparr>"]
  show ?thesis by blast
qed

text \<open>
  C4. \<open>load_or_create_qa_file\<close> right after \<open>save_qa_data\<close> on the same path returns the
  ledger that was persisted and leaves the world as the save left it; the persisted
  ledger is the given one with \<open>last_update\<close> set to the time read from the clock.
\<close>

theorem persist_roundtrip:
  "load_or_create_qa_file path (snd (save_qa_data now data path w)) =
     Inr (Ledger (fst (save_qa_data now data path w)), snd (save_qa_data now data path w)) \<and>
   fst (save_qa_data now data path w) = data\<lparr>metadata := (metadata data)\<lparr>last_update := now (ticks w)\<rparr>\<rparr>"
  by (simp add: save_qa_data_def load_or_create_qa_file_def Let_def)




text \<open>
  C2. With a stored ledger that has \<open>last_processed_page = 9\<close>, watermark \<open>-1\<close> and three
  records, and a document of ten pages, \<open>main\<close> ends without any exception and without
  starting a page: the deck holds the cards of the three records, which the first
  synchronization added, the package is written, the watermark is 2, and the files, the
  clock and the announced pages are as before (whatever the model and the pages are).
\<close>

theorem resume_no_pages:
  assumes "files w ''qa_data.json'' = Some (Json data)"
    and "last_processed_page (metadata data) = 9" and "watermark data = - 1"
    and "length (qa_pairs data) = 3" and "length pages = 10"
  shows "main now generate_questions (Inr pages) w =
           Inr (None, data\<lparr>metadata := (metadata data)\<lparr>last_anki_card_index := 2\<rparr>\<rparr>,
                map make_note (qa_pairs data),
                w\<lparr>package := Some (map make_note (qa_pairs data))\<rparr>) \<and>
         add_new_cards_to_deck [] data =
           (3, map make_note (qa_pairs data),
            data\<lparr>metadata := (metadata data)\<lparr>last_anki_card_index := 2\<rparr>\<rparr>) \<and>
         length (map make_note (qa_pairs data)) = 3"
proof -
  from assms(4) have "qa_pairs data \<noteq> []" by auto
  with assms have s: "add_new_cards_to_deck [] data =
           (3, map make_note (qa_pairs data),
            data\<lparr>metadata := (metadata data)\<lparr>last_anki_card_index := 2\<rparr>\<rparr>)"
    by (simp add: add_new_cards_eq py_slice_from_def Let_def)
  with assms show ?thesis
    by (simp add: main_def load_or_create_qa_file_def sync_deck_def Let_def save_deck_def)
qed


theorem resume_no_pages_witness:
  "files resume_world ''qa_data.json'' = Some (Json resume_ledger) \<and>
   last_processed_page (metadata resume_ledger) = 9 \<and> watermark resume_ledger = - 1 \<and>
   length (qa_pairs resume_ledger) = 3 \<and> length (replicate 10 (Inr (Some ''Water. Ice.'') :: page)) = 10 \<and>
   main (\<lambda>n. ''2024-01-02T00:00:00'') (\<lambda>part. Inl ModelError)
     (Inr (replicate 10 (Inr (Some ''Water. Ice.'')))) resume_world =
     Inr (None, resume_ledger\<lparr>metadata := (metadata resume_ledger)\<lparr>last_anki_card_index := 2\<rparr>\<rparr>,
          map make_note (qa_pairs resume_ledger),
          resume_world\<lparr>package := Some (map make_note (qa_pairs resume_ledger))\<rparr>)"
proof -
  have h1: "files resume_world ''qa_data.json'' = Some (Json resume_ledger)"
    by (simp add: resume_world_def)
  have h2: "last_processed_page (metadata resume_ledger) = 9" by (simp add: resume_ledger_def)
  have h3: "watermark resume_ledger = - 1" by (simp add: resume_ledger_def)
  have h4: "length (qa_pairs resume_ledger) = 3" by (simp add: resume_ledger_def)
  have h5: "length (replicate 10 (Inr (Some ''Water. Ice.'') :: page)) = 10" by simp
  from h1 h2 h3 h4 h5 resume_no_pages [OF h1 h2 h3 h4 h5] show ?thesis by blast
qed

end
